theory Spec2Isabelle
  imports Main "HOL-Library.Word" "HOL-Library.Signed_Division"
begin

section \<open>Go values used by the load balancer\<close>

text \<open>
  The round-robin counter is declared \<^verbatim>\<open>roundRobinCounter int\<close>. Go's \<^verbatim>\<open>int\<close> is a signed
  machine integer; on the 64-bit targets it has 64 bits, \<^verbatim>\<open>++\<close> wraps around in two's
  complement, \<^verbatim>\<open>%\<close> truncates towards zero (the remainder takes the sign of the dividend)
  and panics on a zero divisor, and indexing a slice outside \<open>[0, len)\<close> panics.
\<close>

type_synonym go_int = "64 word"

datatype panic = DivideByZero | IndexOutOfRange int

definition go_len :: "'a list \<Rightarrow> go_int" where
  "go_len xs = of_nat (length xs)"

definition go_rem :: "go_int \<Rightarrow> go_int \<Rightarrow> panic + go_int" where
  "go_rem a b =
     (if b = 0 then Inl DivideByZero else Inr (word_of_int (sint a smod sint b)))"

definition go_index :: "'a list \<Rightarrow> go_int \<Rightarrow> panic + 'a" where
  "go_index xs i =
     (if 0 \<le> sint i \<and> nat (sint i) < length xs then Inr (xs ! nat (sint i))
      else Inl (IndexOutOfRange (sint i)))"

text \<open>
  A process either goes on with a value or has left through \<^verbatim>\<open>os.Exit\<close>; both carry what
  was printed on standard output.
\<close>

datatype 'a process = Exit string int | Return 'a

section \<open>The Server interface and simpleServer\<close>

text \<open>
  A value of the interface \<^verbatim>\<open>Server\<close> is the record of its three methods. \<open>IsAlive\<close> is
  the answer the target gives at every call; \<open>Serve\<close> maps the request to the response
  the target writes to the \<^verbatim>\<open>http.ResponseWriter\<close>. A target has no reference to the load
  balancer.
\<close>

record ('q, 'r) Server =
  Address :: string
  IsAlive :: bool
  Serve :: "'q \<Rightarrow> 'r"

datatype 'u ReverseProxy = NewSingleHostReverseProxy 'u

record 'u simpleServer =
  address :: string
  proxy :: "'u ReverseProxy"

definition simpleServer_Address :: "'u simpleServer \<Rightarrow> string" where
  "simpleServer_Address s = address s"

definition simpleServer_IsAlive :: "'u simpleServer \<Rightarrow> bool" where
  "simpleServer_IsAlive s = True"

text \<open>\<open>serveHTTP\<close> stands for \<^verbatim>\<open>httputil.ReverseProxy.ServeHTTP\<close> of the standard library.\<close>

definition simpleServer_Serve ::
  "('u ReverseProxy \<Rightarrow> 'q \<Rightarrow> 'r) \<Rightarrow> 'u simpleServer \<Rightarrow> 'q \<Rightarrow> 'r" where
  "simpleServer_Serve serveHTTP s r = serveHTTP (proxy s) r"

definition asServer ::
  "('u ReverseProxy \<Rightarrow> 'q \<Rightarrow> 'r) \<Rightarrow> 'u simpleServer \<Rightarrow> ('q, 'r) Server" where
  "asServer serveHTTP s =
     \<lparr>Address = simpleServer_Address s,
      IsAlive = simpleServer_IsAlive s,
      Serve = simpleServer_Serve serveHTTP s\<rparr>"

text \<open>An \<^verbatim>\<open>error\<close> is \<open>None\<close> for \<^verbatim>\<open>nil\<close>, or the message that \<^verbatim>\<open>%v\<close> prints.\<close>

type_synonym go_error = "string option"

definition handleErr :: "go_error \<Rightarrow> unit process" where
  "handleErr err =
     (case err of
        Some msg \<Rightarrow> Exit (''error: '' @ msg @ [CHR 0x0A]) 1
      | None \<Rightarrow> Return ())"

text \<open>\<open>parse\<close> stands for \<^verbatim>\<open>url.Parse\<close> of the standard library, which returns a pair.\<close>

definition newSimpleServer ::
  "(string \<Rightarrow> 'u \<times> go_error) \<Rightarrow> string \<Rightarrow> 'u simpleServer process" where
  "newSimpleServer parse addr =
     (case parse addr of
        (serverUrl, err) \<Rightarrow>
          (case handleErr err of
             Exit out status \<Rightarrow> Exit out status
           | Return _ \<Rightarrow>
               Return \<lparr>address = addr, proxy = NewSingleHostReverseProxy serverUrl\<rparr>))"

section \<open>The load balancer\<close>

record ('q, 'r) LoadBalancer =
  port :: string
  roundRobinCounter :: go_int
  servers :: "('q, 'r) Server list"

definition NewLoadBalancer :: "string \<Rightarrow> ('q, 'r) Server list \<Rightarrow> ('q, 'r) LoadBalancer" where
  "NewLoadBalancer p srvs = \<lparr>port = p, roundRobinCounter = 0, servers = srvs\<rparr>"

text \<open>
  The expression \<^verbatim>\<open>lb.servers[lb.roundRobinCounter%len(lb.servers)]\<close>, which
  \<^verbatim>\<open>getNextAvailableServer\<close> evaluates before the loop and in the loop body.
\<close>

definition serverAtCounter :: "('q, 'r) LoadBalancer \<Rightarrow> panic + ('q, 'r) Server" where
  "serverAtCounter lb =
     (case go_rem (roundRobinCounter lb) (go_len (servers lb)) of
        Inl p \<Rightarrow> Inl p
      | Inr i \<Rightarrow> go_index (servers lb) i)"

text \<open>
  A call returns the load balancer as the call leaves it together with either the selected
  server or the panic that ended the call. The loop \<^verbatim>\<open>for !server.IsAlive() { ... }\<close> may
  run forever: \<open>None\<close> is the call that never returns.
\<close>

type_synonym ('a, 'q, 'r) result = "((panic + 'a) \<times> ('q, 'r) LoadBalancer) option"

partial_function (option) skipLoop ::
  "('q, 'r) LoadBalancer \<Rightarrow> ('q, 'r) Server \<Rightarrow> (('q, 'r) Server, 'q, 'r) result"
where
  "skipLoop lb server =
     (if IsAlive server then Some (Inr server, lb)
      else (let lb' = lb\<lparr>roundRobinCounter := roundRobinCounter lb + 1\<rparr>
            in case serverAtCounter lb' of
                 Inl p \<Rightarrow> Some (Inl p, lb')
               | Inr server' \<Rightarrow> skipLoop lb' server'))"

declare skipLoop.simps [code]

definition getNextAvailableServer ::
  "('q, 'r) LoadBalancer \<Rightarrow> (('q, 'r) Server, 'q, 'r) result"
where
  "getNextAvailableServer lb =
     (case serverAtCounter lb of
        Inl p \<Rightarrow> Some (Inl p, lb)
      | Inr server \<Rightarrow>
          (case skipLoop lb server of
             None \<Rightarrow> None
           | Some (Inl p, lb') \<Rightarrow> Some (Inl p, lb')
           | Some (Inr server', lb') \<Rightarrow>
               Some (Inr server', lb'\<lparr>roundRobinCounter := roundRobinCounter lb' + 1\<rparr>)))"

text \<open>
  What \<^verbatim>\<open>serveProxy\<close> does besides selecting: the line it prints and the response the
  target's \<^verbatim>\<open>Serve\<close> writes, in this order.
\<close>

datatype 'r effect = is_Stdout: Stdout string | is_Response: Response 'r

definition serveProxy ::
  "('q, 'r) LoadBalancer \<Rightarrow> 'q \<Rightarrow> ('r effect list, 'q, 'r) result"
where
  "serveProxy lb req =
     (case getNextAvailableServer lb of
        None \<Rightarrow> None
      | Some (Inl p, lb') \<Rightarrow> Some (Inl p, lb')
      | Some (Inr targetServer, lb') \<Rightarrow>
          Some (Inr [Stdout (''forwarding request to '' @ [CHR 0x27] @ Address targetServer
                             @ [CHR 0x27, CHR 0x0A]),
                     Response (Serve targetServer req)], lb'))"

text \<open>
  \<open>selections k lb\<close> is \<open>k\<close> calls of \<^verbatim>\<open>getNextAvailableServer\<close> one after the other on the
  same load balancer, collecting the servers returned; a panic ends the run.
\<close>

fun selections ::
  "nat \<Rightarrow> ('q, 'r) LoadBalancer \<Rightarrow> (('q, 'r) Server list, 'q, 'r) result"
where
  "selections 0 lb = Some (Inr [], lb)"
| "selections (Suc k) lb =
     (case getNextAvailableServer lb of
        None \<Rightarrow> None
      | Some (Inl p, lb') \<Rightarrow> Some (Inl p, lb')
      | Some (Inr server, lb') \<Rightarrow>
          (case selections k lb' of
             None \<Rightarrow> None
           | Some (Inl p, lb'') \<Rightarrow> Some (Inl p, lb'')
           | Some (Inr rest, lb'') \<Rightarrow> Some (Inr (server # rest), lb'')))"

text \<open>
  The interface exists so that targets with their own liveness can be put behind the load
  balancer. \<open>stubServer\<close> is such a target: it answers \<open>IsAlive\<close> with a fixed value and
  serves a request by echoing it behind its own address.
\<close>

definition stubServer :: "string \<Rightarrow> bool \<Rightarrow> (string, string) Server" where
  "stubServer name alive =
     \<lparr>Address = name, IsAlive = alive, Serve = (\<lambda>req. name @ '':'' @ req)\<rparr>"

text \<open>
  A target whose backend cannot be reached: the reverse proxy answers every request with
  a gateway error, written to the response like any other answer.
\<close>

definition unreachableServer :: "string \<Rightarrow> (string, string) Server" where
  "unreachableServer name =
     \<lparr>Address = name, IsAlive = True, Serve = (\<lambda>req. ''502 Bad Gateway'')\<rparr>"

text \<open>A stand-in for \<^verbatim>\<open>url.Parse\<close> that rejects exactly the addresses holding a space.\<close>

definition parseStub :: "string \<Rightarrow> string \<times> go_error" where
  "parseStub addr =
     (if CHR 0x20 \<in> set addr then ([], Some ''invalid character in host name'')
      else (addr, None))"

section \<open>Arithmetic of the counter\<close>

lemma sint_word_of_int_small:
  "- (2 ^ 63) \<le> k \<Longrightarrow> k < 2 ^ 63 \<Longrightarrow> sint (word_of_int k :: go_int) = k"
  by (simp add: signed_of_int signed_take_bit_int_eq_self)

lemma sint_of_nat_small: "n < 2 ^ 63 \<Longrightarrow> sint (of_nat n :: go_int) = int n"
  using sint_word_of_int_small [of "int n"] by simp

lemma go_len_eq_0: "length xs < 2 ^ 63 \<Longrightarrow> (go_len xs = 0) = (xs = [])"
proof -
  assume a: "length xs < 2 ^ 63"
  have "sint (go_len xs) = int (length xs)"
    using a by (simp add: go_len_def sint_of_nat_small)
  then show ?thesis by (cases xs) (auto simp: go_len_def)
qed

lemma smod_nonneg: "0 \<le> (a::int) \<Longrightarrow> 0 < b \<Longrightarrow> a smod b = a mod b"
  by (cases "a = 0") (simp_all add: signed_modulo_int_def)

section \<open>One selection, counted in natural numbers\<close>

text \<open>
  While the counter holds a natural number \<open>c\<close> below \<open>2 ^ 63\<close> the index is \<open>c mod len\<close>.
\<close>

lemma serverAtCounter_nat:
  assumes "roundRobinCounter lb = of_nat c" "c < 2 ^ 63"
    and "servers lb \<noteq> []" "length (servers lb) < 2 ^ 63"
  shows "serverAtCounter lb = Inr (servers lb ! (c mod length (servers lb)))"
proof -
  let ?n = "length (servers lb)"
  have n: "0 < ?n" using assms(3) by simp
  have l: "sint (go_len (servers lb)) = int ?n"
    using assms(4) by (simp add: go_len_def sint_of_nat_small)
  have c: "sint (roundRobinCounter lb) = int c"
    using assms(1,2) by (simp add: sint_of_nat_small)
  have m: "int c smod int ?n = int (c mod ?n)"
    using n by (simp add: smod_nonneg zmod_int)
  have "c mod ?n < ?n" using n by simp
  then have b: "c mod ?n < 2 ^ 63" using assms(4) by linarith
  have r: "go_rem (roundRobinCounter lb) (go_len (servers lb)) = Inr (of_nat (c mod ?n))"
    using assms(3,4) by (simp add: go_rem_def go_len_eq_0 l c m)
  show ?thesis
    using n b by (simp add: serverAtCounter_def r go_index_def sint_of_nat_small)
qed

text \<open>
  As long as the targets it passes are not alive and the counter stays below \<open>2 ^ 63\<close>,
  the loop started at counter \<open>c\<close> is the loop started at counter \<open>c + j\<close>.
\<close>

lemma skipLoop_advance:
  "servers lb \<noteq> [] \<Longrightarrow> length (servers lb) < 2 ^ 63 \<Longrightarrow>
   roundRobinCounter lb = of_nat c \<Longrightarrow> c + j < 2 ^ 63 \<Longrightarrow>
   \<forall>i<j. \<not> IsAlive (servers lb ! ((c + i) mod length (servers lb))) \<Longrightarrow>
   skipLoop lb (servers lb ! (c mod length (servers lb)))
     = skipLoop (lb\<lparr>roundRobinCounter := of_nat (c + j)\<rparr>)
         (servers lb ! ((c + j) mod length (servers lb)))"
proof (induction j arbitrary: c lb)
  case 0
  have "lb\<lparr>roundRobinCounter := of_nat c\<rparr> = lb" using "0.prems"(3) by simp
  then show ?case by simp
next
  case (Suc j)
  let ?n = "length (servers lb)"
  let ?lb = "lb\<lparr>roundRobinCounter := roundRobinCounter lb + 1\<rparr>"
  have dead: "\<not> IsAlive (servers lb ! (c mod ?n))"
    using Suc.prems(5) [rule_format, of 0] by simp
  have cnt: "roundRobinCounter ?lb = of_nat (Suc c)"
    using Suc.prems(3) by simp
  have at: "serverAtCounter ?lb = Inr (servers lb ! (Suc c mod ?n))"
    using serverAtCounter_nat [OF cnt] Suc.prems by simp
  have rest: "\<forall>i<j. \<not> IsAlive (servers ?lb ! ((Suc c + i) mod length (servers ?lb)))"
  proof (intro allI impI)
    fix i assume "i < j"
    then have "Suc i < Suc j" by simp
    from Suc.prems(5) [rule_format, OF this]
    show "\<not> IsAlive (servers ?lb ! ((Suc c + i) mod length (servers ?lb)))" by simp
  qed
  have "skipLoop ?lb (servers ?lb ! (Suc c mod length (servers ?lb)))
      = skipLoop (?lb\<lparr>roundRobinCounter := of_nat (Suc c + j)\<rparr>)
          (servers ?lb ! ((Suc c + j) mod length (servers ?lb)))"
    using Suc.prems rest by (intro Suc.IH [OF _ _ cnt]) simp_all
  then show ?case
    using dead at by (subst skipLoop.simps) simp
qed

lemma skipLoop_nat:
  assumes "servers lb \<noteq> []" "length (servers lb) < 2 ^ 63"
    and "roundRobinCounter lb = of_nat c" "c + d < 2 ^ 63"
    and "\<forall>i<d. \<not> IsAlive (servers lb ! ((c + i) mod length (servers lb)))"
    and "IsAlive (servers lb ! ((c + d) mod length (servers lb)))"
  shows "skipLoop lb (servers lb ! (c mod length (servers lb)))
      = Some (Inr (servers lb ! ((c + d) mod length (servers lb))),
              lb\<lparr>roundRobinCounter := of_nat (c + d)\<rparr>)"
proof -
  have "skipLoop (lb\<lparr>roundRobinCounter := of_nat (c + d)\<rparr>)
          (servers lb ! ((c + d) mod length (servers lb)))
      = Some (Inr (servers lb ! ((c + d) mod length (servers lb))),
              lb\<lparr>roundRobinCounter := of_nat (c + d)\<rparr>)"
    using assms(6) by (subst skipLoop.simps) simp
  with skipLoop_advance [OF assms(1-5)] show ?thesis by simp
qed

text \<open>
  A selection that starts at counter \<open>c\<close> skips the \<open>d\<close> targets that are not alive, returns
  the first one that is, and leaves the counter at \<open>c + d + 1\<close>.
\<close>

lemma getNextAvailableServer_nat:
  assumes "servers lb \<noteq> []" "length (servers lb) < 2 ^ 63"
    and "roundRobinCounter lb = of_nat c" "c + d < 2 ^ 63"
    and "\<forall>i<d. \<not> IsAlive (servers lb ! ((c + i) mod length (servers lb)))"
    and "IsAlive (servers lb ! ((c + d) mod length (servers lb)))"
  shows "getNextAvailableServer lb
      = Some (Inr (servers lb ! ((c + d) mod length (servers lb))),
              lb\<lparr>roundRobinCounter := of_nat (Suc (c + d))\<rparr>)"
proof -
  have "c < 2 ^ 63" using assms(4) by simp
  then have at: "serverAtCounter lb = Inr (servers lb ! (c mod length (servers lb)))"
    using serverAtCounter_nat assms(1-3) by blast
  show ?thesis
    by (simp add: getNextAvailableServer_def at skipLoop_nat [OF assms])
qed

section \<open>Round robin over targets that are all alive\<close>

lemma selections_all_alive:
  "servers lb \<noteq> [] \<Longrightarrow> length (servers lb) < 2 ^ 63 \<Longrightarrow>
   \<forall>s\<in>set (servers lb). IsAlive s \<Longrightarrow>
   roundRobinCounter lb = of_nat c \<Longrightarrow> c + k \<le> 2 ^ 63 \<Longrightarrow>
   selections k lb
     = Some (Inr (map (\<lambda>i. servers lb ! (i mod length (servers lb))) [c..<c + k]),
             lb\<lparr>roundRobinCounter := of_nat (c + k)\<rparr>)"
proof (induction k arbitrary: c lb)
  case 0
  then show ?case by simp
next
  case (Suc k)
  let ?n = "length (servers lb)"
  let ?lb = "lb\<lparr>roundRobinCounter := of_nat (Suc c)\<rparr>"
  have "c mod ?n < ?n" using Suc.prems(1) by simp
  then have alive: "IsAlive (servers lb ! (c mod ?n))"
    using Suc.prems(3) by simp
  have step: "getNextAvailableServer lb = Some (Inr (servers lb ! (c mod ?n)), ?lb)"
    using getNextAvailableServer_nat [of lb c 0] Suc.prems alive by simp
  have rest: "selections k ?lb
     = Some (Inr (map (\<lambda>i. servers ?lb ! (i mod length (servers ?lb))) [Suc c..<Suc c + k]),
             ?lb\<lparr>roundRobinCounter := of_nat (Suc c + k)\<rparr>)"
    using Suc.prems by (intro Suc.IH) simp_all
  show ?case
    using rest by (simp add: step upt_conv_Cons del: upt_Suc)
qed


lemma map_nth_mod: "map (\<lambda>i. xs ! (i mod length xs)) [0..<length xs] = xs"
proof -
  have "map (\<lambda>i. xs ! (i mod length xs)) [0..<length xs] = map (\<lambda>i. xs ! i) [0..<length xs]"
    by (rule map_cong) simp_all
  then show ?thesis by (simp add: map_nth)
qed

text \<open>
  C1. A load balancer constructed over a non-empty list of \<open>N\<close> targets that are all alive
  returns, in \<open>N\<close> consecutive selections, exactly the construction list: every target
  once, in construction order. More generally \<open>k\<close> consecutive selections return the
  targets at positions \<open>0 mod N, 1 mod N, ..., (k - 1) mod N\<close>; for \<open>[A, B, C]\<close> and four
  selections this is \<open>A, B, C, A\<close>. The length of a Go slice is an \<^verbatim>\<open>int\<close>, hence below
  \<open>2 ^ 63\<close>.
\<close>

theorem round_robin_all_alive:
  assumes "srvs \<noteq> []" "length srvs < 2 ^ 63" "\<forall>s\<in>set srvs. IsAlive s"
  shows "selections (length srvs) (NewLoadBalancer p srvs)
           = Some (Inr srvs, \<lparr>port = p, roundRobinCounter = go_len srvs, servers = srvs\<rparr>)
       \<and> (\<forall>k. k \<le> 2 ^ 63 \<longrightarrow>
            selections k (NewLoadBalancer p srvs)
              = Some (Inr (map (\<lambda>i. srvs ! (i mod length srvs)) [0..<k]),
                      \<lparr>port = p, roundRobinCounter = of_nat k, servers = srvs\<rparr>))"
proof -
  have run: "selections k (NewLoadBalancer p srvs)
              = Some (Inr (map (\<lambda>i. srvs ! (i mod length srvs)) [0..<k]),
                      \<lparr>port = p, roundRobinCounter = of_nat k, servers = srvs\<rparr>)"
    if "k \<le> 2 ^ 63" for k
    using selections_all_alive [of "NewLoadBalancer p srvs" 0 k] assms that
    by (simp add: NewLoadBalancer_def)
  have "selections (length srvs) (NewLoadBalancer p srvs)
           = Some (Inr srvs, \<lparr>port = p, roundRobinCounter = go_len srvs, servers = srvs\<rparr>)"
    using run [of "length srvs"] assms(2) by (simp add: map_nth_mod go_len_def)
  then show ?thesis using run by blast
qed

theorem round_robin_all_alive_witness:
  "selections 3 (NewLoadBalancer ''8080''
       [stubServer ''A'' True, stubServer ''B'' True, stubServer ''C'' True])
     = Some (Inr [stubServer ''A'' True, stubServer ''B'' True, stubServer ''C'' True],
             \<lparr>port = ''8080'', roundRobinCounter = 3,
              servers = [stubServer ''A'' True, stubServer ''B'' True, stubServer ''C'' True]\<rparr>)
   \<and> selections 4 (NewLoadBalancer ''8080''
       [stubServer ''A'' True, stubServer ''B'' True, stubServer ''C'' True])
     = Some (Inr [stubServer ''A'' True, stubServer ''B'' True, stubServer ''C'' True,
                  stubServer ''A'' True],
             \<lparr>port = ''8080'', roundRobinCounter = 4,
              servers = [stubServer ''A'' True, stubServer ''B'' True, stubServer ''C'' True]\<rparr>)"
proof -
  let ?srvs = "[stubServer ''A'' True, stubServer ''B'' True, stubServer ''C'' True]"
  have a: "?srvs \<noteq> []" "length ?srvs < 2 ^ 63" "\<forall>s\<in>set ?srvs. IsAlive s"
    by (simp_all add: stubServer_def)
  note th = round_robin_all_alive [OF a, of "''8080''"]
  have len: "length ?srvs = 3" by simp
  have gl: "go_len ?srvs = 3" by (simp add: go_len_def)
  have four: "map (\<lambda>i. ?srvs ! (i mod 3)) [0..<4]
      = [stubServer ''A'' True, stubServer ''B'' True, stubServer ''C'' True, stubServer ''A'' True]"
    by (simp add: upt_conv_Cons)
  have of4: "(of_nat 4 :: go_int) = 4" by simp
  have le: "(4::nat) \<le> 2 ^ 63" by simp
  have t1: "selections 3 (NewLoadBalancer ''8080'' ?srvs)
     = Some (Inr ?srvs, \<lparr>port = ''8080'', roundRobinCounter = 3, servers = ?srvs\<rparr>)"
    using th [THEN conjunct1] unfolding len gl .
  have t2: "selections 4 (NewLoadBalancer ''8080'' ?srvs)
     = Some (Inr [stubServer ''A'' True, stubServer ''B'' True, stubServer ''C'' True,
                  stubServer ''A'' True],
             \<lparr>port = ''8080'', roundRobinCounter = 4, servers = ?srvs\<rparr>)"
    using th [THEN conjunct2, rule_format, OF le] unfolding len four of4 .
  show ?thesis using t1 t2 by (rule conjI)
qed

section \<open>What a selection can return\<close>

text \<open>
  Whatever way a call ends, it has changed nothing but the counter, and a server it
  returns is alive and is one of the targets.
\<close>

lemma skipLoop_result:
  assumes "skipLoop lb server = Some y"
  shows "snd y = lb\<lparr>roundRobinCounter := roundRobinCounter (snd y)\<rparr>
   \<and> (\<forall>s. fst y = Inr s \<longrightarrow> IsAlive s \<and> (s = server \<or> s \<in> set (servers lb)))"
  using assms
proof (induction rule: skipLoop.raw_induct [rotated 1, consumes 1])
  case (1 skipLoop' lb server y)
  show ?case
  proof (cases "IsAlive server")
    case True
    with 1(2) show ?thesis by auto
  next
    case False
    let ?lb = "lb\<lparr>roundRobinCounter := roundRobinCounter lb + 1\<rparr>"
    show ?thesis
    proof (cases "serverAtCounter ?lb")
      case (Inl p)
      with False 1(2) show ?thesis by auto
    next
      case (Inr server')
      with False 1(2) have call: "skipLoop' ?lb server' = Some y" by simp
      have mem: "server' \<in> set (servers lb)"
        using Inr by (auto simp: serverAtCounter_def go_index_def split: sum.splits if_splits)
      from 1(1) [OF call] mem show ?thesis by auto
    qed
  qed
qed

lemma serverAtCounter_mem: "serverAtCounter lb = Inr s \<Longrightarrow> s \<in> set (servers lb)"
  by (auto simp: serverAtCounter_def go_index_def split: sum.splits if_splits)

lemma getNextAvailableServer_result:
  assumes "getNextAvailableServer lb = Some (r, lb')"
  shows "lb' = lb\<lparr>roundRobinCounter := roundRobinCounter lb'\<rparr>
     \<and> (\<forall>s. r = Inr s \<longrightarrow> IsAlive s \<and> s \<in> set (servers lb))"
proof (cases "serverAtCounter lb")
  case (Inl p)
  with assms show ?thesis by (auto simp: getNextAvailableServer_def)
next
  case (Inr server)
  with assms obtain y where y: "skipLoop lb server = Some y"
    by (auto simp: getNextAvailableServer_def split: option.splits)
  from skipLoop_result [OF y] serverAtCounter_mem [OF Inr]
  have fr: "snd y = lb\<lparr>roundRobinCounter := roundRobinCounter (snd y)\<rparr>"
    and al: "\<forall>s. fst y = Inr s \<longrightarrow> IsAlive s \<and> s \<in> set (servers lb)"
    by auto
  show ?thesis
  proof (cases y)
    case (Pair r0 lb0)
    show ?thesis
    proof (cases r0)
      case (Inl p)
      with Pair y Inr assms fr show ?thesis
        by (auto simp: getNextAvailableServer_def)
    next
      case r0: (Inr s0)
      have "lb0 = lb\<lparr>roundRobinCounter := roundRobinCounter lb0\<rparr>"
        using fr Pair by simp
      then have "lb0\<lparr>roundRobinCounter := roundRobinCounter lb0 + 1\<rparr>
          = lb\<lparr>roundRobinCounter := roundRobinCounter lb0 + 1\<rparr>"
        by (metis LoadBalancer.update_convs(2) LoadBalancer.surjective)
      with r0 Pair y Inr assms al show ?thesis
        by (auto simp: getNextAvailableServer_def)
    qed
  qed
qed

section \<open>Round robin with targets that are not alive\<close>

text \<open>From any counter value, a target that is alive is at most \<open>len - 1\<close> steps ahead.\<close>

lemma exists_skip:
  assumes "xs \<noteq> []" "\<exists>s\<in>set xs. IsAlive s"
  shows "\<exists>d<length xs. (\<forall>i<d. \<not> IsAlive (xs ! ((c + i) mod length xs)))
                        \<and> IsAlive (xs ! ((c + d) mod length xs))"
proof -
  let ?n = "length xs"
  let ?P = "\<lambda>d. IsAlive (xs ! ((c + d) mod ?n))"
  from assms(2) obtain a where a: "a < ?n" "IsAlive (xs ! a)"
    by (auto simp: in_set_conv_nth)
  define d0 where "d0 = (a + (?n - c mod ?n)) mod ?n"
  have n: "0 < ?n" using assms(1) by simp
  have "(c + d0) mod ?n = (c mod ?n + (a + (?n - c mod ?n))) mod ?n"
    unfolding d0_def by (simp add: mod_simps)
  also have "c mod ?n + (a + (?n - c mod ?n)) = a + ?n"
    using mod_less_divisor [OF n, of c] by linarith
  also have "(a + ?n) mod ?n = a" using a(1) by simp
  finally have P0: "?P d0" using a(2) by simp
  have d0: "d0 < ?n" unfolding d0_def using n by simp
  have "(LEAST d. ?P d) \<le> d0" using P0 by (rule Least_le)
  then have "(LEAST d. ?P d) < ?n" using d0 by simp
  moreover have "?P (LEAST d. ?P d)" using P0 by (rule LeastI)
  moreover have "\<forall>i<(LEAST d. ?P d). \<not> ?P i" using not_less_Least by blast
  ultimately show ?thesis by blast
qed


lemma filter_skipped:
  assumes "\<forall>i<d. \<not> P (f (c + i))"
  shows "filter P (map f [c..<c + d]) = []"
proof -
  have "\<not> P (f j)" if "c \<le> j" "j < c + d" for j
  proof -
    have "j - c < d" using that by linarith
    then have "\<not> P (f (c + (j - c)))" using assms by blast
    then show ?thesis using that by simp
  qed
  then show ?thesis by (auto simp: filter_empty_conv)
qed

text \<open>
  A run of \<open>k\<close> selections that starts at counter \<open>c\<close> returns the targets the counter
  passes, \<open>servers ! (c mod len), servers ! ((c + 1) mod len), ...\<close>, without those that
  are not alive.
\<close>

lemma selections_filter:
  "servers lb \<noteq> [] \<Longrightarrow> length (servers lb) < 2 ^ 63 \<Longrightarrow>
   \<exists>s\<in>set (servers lb). IsAlive s \<Longrightarrow>
   roundRobinCounter lb = of_nat c \<Longrightarrow> c + k * length (servers lb) < 2 ^ 63 \<Longrightarrow>
   \<exists>c'. c + k \<le> c' \<and> c' \<le> c + k * length (servers lb)
      \<and> selections k lb
          = Some (Inr (filter IsAlive
                         (map (\<lambda>i. servers lb ! (i mod length (servers lb))) [c..<c'])),
                  lb\<lparr>roundRobinCounter := of_nat c'\<rparr>)
      \<and> length (filter IsAlive
                   (map (\<lambda>i. servers lb ! (i mod length (servers lb))) [c..<c'])) = k"
proof (induction k arbitrary: c lb)
  case 0
  have "lb\<lparr>roundRobinCounter := of_nat c\<rparr> = lb"
    using "0.prems"(4) by simp
  then show ?case by (intro exI [of _ c]) simp
next
  case (Suc k)
  let ?n = "length (servers lb)"
  let ?f = "\<lambda>i. servers lb ! (i mod ?n)"
  from exists_skip [OF Suc.prems(1) Suc.prems(3), of c]
  obtain d where d: "d < ?n" "\<forall>i<d. \<not> IsAlive (?f (c + i))" "IsAlive (?f (c + d))"
    by blast
  have n: "Suc (c + d) \<le> c + ?n" using d(1) by simp
  have bound: "c + d < 2 ^ 63" using n Suc.prems(5) by simp
  let ?lb1 = "lb\<lparr>roundRobinCounter := of_nat (Suc (c + d))\<rparr>"
  have step: "getNextAvailableServer lb = Some (Inr (?f (c + d)), ?lb1)"
    using getNextAvailableServer_nat [OF Suc.prems(1,2,4) bound d(2,3)] .
  have b1: "Suc (c + d) + k * length (servers ?lb1) < 2 ^ 63"
    using n Suc.prems(5) by simp
  have "\<exists>c'. Suc (c + d) + k \<le> c' \<and> c' \<le> Suc (c + d) + k * length (servers ?lb1)
      \<and> selections k ?lb1
          = Some (Inr (filter IsAlive
                 (map (\<lambda>i. servers ?lb1 ! (i mod length (servers ?lb1))) [Suc (c + d)..<c'])),
                  ?lb1\<lparr>roundRobinCounter := of_nat c'\<rparr>)
      \<and> length (filter IsAlive
                 (map (\<lambda>i. servers ?lb1 ! (i mod length (servers ?lb1))) [Suc (c + d)..<c'])) = k"
    using Suc.prems(1-3) b1 by (intro Suc.IH) simp_all
  then obtain c' where c': "Suc (c + d) + k \<le> c'" "c' \<le> Suc (c + d) + k * ?n"
    and run: "selections k ?lb1
          = Some (Inr (filter IsAlive (map ?f [Suc (c + d)..<c'])),
                  lb\<lparr>roundRobinCounter := of_nat c'\<rparr>)"
    and len: "length (filter IsAlive (map ?f [Suc (c + d)..<c'])) = k"
    by auto
  have "[c..<c + d + (c' - (c + d))] = [c..<c + d] @ [c + d..<c + d + (c' - (c + d))]"
    by (rule upt_add_eq_append) simp
  moreover have "c + d + (c' - (c + d)) = c'" using c'(1) by simp
  ultimately have "[c..<c'] = [c..<c + d] @ [c + d..<c']" by simp
  also have "[c + d..<c'] = (c + d) # [Suc (c + d)..<c']"
    using c'(1) by (intro upt_conv_Cons) simp
  finally have split: "[c..<c'] = [c..<c + d] @ (c + d) # [Suc (c + d)..<c']" .
  have fl: "filter IsAlive (map ?f [c..<c'])
      = ?f (c + d) # filter IsAlive (map ?f [Suc (c + d)..<c'])"
    unfolding split using d(3) filter_skipped [of d IsAlive ?f c, OF d(2)] by simp
  have "c + Suc k \<le> c'" using c'(1) by simp
  moreover have "c' \<le> c + Suc k * ?n" using c'(2) n by simp
  moreover have "selections (Suc k) lb
      = Some (Inr (filter IsAlive (map ?f [c..<c'])), lb\<lparr>roundRobinCounter := of_nat c'\<rparr>)"
    unfolding fl
    by (simp only: selections.simps step run option.case prod.case sum.case)
  moreover have "length (filter IsAlive (map ?f [c..<c'])) = Suc k"
    unfolding fl using len by simp
  ultimately show ?case by blast
qed


text \<open>Deleting from the cyclic sequence of a list is the cyclic sequence of what is left.\<close>

lemma length_concat_replicate: "length (concat (replicate q xs)) = q * length xs"
  by (induction q) simp_all

lemma concat_replicate_nth:
  "xs \<noteq> [] \<Longrightarrow> i < q * length xs \<Longrightarrow> concat (replicate q xs) ! i = xs ! (i mod length xs)"
proof (induction q arbitrary: i)
  case 0
  then show ?case by simp
next
  case (Suc q)
  show ?case
  proof (cases "i < length xs")
    case True
    then show ?thesis by (simp add: nth_append)
  next
    case False
    then have "i - length xs < q * length xs" using Suc.prems(2) by simp
    then have "concat (replicate q xs) ! (i - length xs) = xs ! ((i - length xs) mod length xs)"
      using Suc.IH Suc.prems(1) by blast
    moreover have "(i - length xs) mod length xs = i mod length xs"
      using False by (simp add: le_mod_geq)
    ultimately show ?thesis using False by (simp add: nth_append)
  qed
qed

lemma cyclic_take:
  assumes "xs \<noteq> []" "c \<le> q * length xs"
  shows "map (\<lambda>i. xs ! (i mod length xs)) [0..<c] = take c (concat (replicate q xs))"
  using assms
  by (intro nth_equalityI) (simp_all add: length_concat_replicate concat_replicate_nth)

lemma cyclic_filter:
  assumes "xs \<noteq> []" "filter P xs \<noteq> []"
    and "length (filter P (map (\<lambda>i. xs ! (i mod length xs)) [0..<c])) = k"
  shows "filter P (map (\<lambda>i. xs ! (i mod length xs)) [0..<c])
       = map (\<lambda>i. filter P xs ! (i mod length (filter P xs))) [0..<k]"
proof -
  let ?R = "concat (replicate c xs)"
  let ?L = "concat (replicate c (filter P xs))"
  let ?V = "map (\<lambda>i. xs ! (i mod length xs)) [0..<c]"
  have "c \<le> c * length xs" using assms(1) by (cases xs) simp_all
  then have V: "?V = take c ?R" using cyclic_take [OF assms(1)] by blast
  have "filter P ?R = ?L" by (simp add: filter_concat)
  moreover have "filter P ?R = filter P (take c ?R) @ filter P (drop c ?R)"
    by (metis append_take_drop_id filter_append)
  ultimately have L: "?L = filter P ?V @ filter P (drop c ?R)" using V by simp
  then have "take k ?L = filter P ?V" using assms(3) by simp
  moreover have "k \<le> length ?L" using L assms(3) by (metis le_add1 length_append)
  then have "take k ?L = map (\<lambda>i. filter P xs ! (i mod length (filter P xs))) [0..<k]"
    using assms(2)
    by (intro nth_equalityI) (simp_all add: length_concat_replicate concat_replicate_nth)
  ultimately show ?thesis by simp
qed


text \<open>
  Let exactly one target, \<open>dead\<close>, answer \<open>IsAlive\<close> with false and all others with true.
  Then no selection, from any state of the load balancer, returns \<open>dead\<close>; and as long as
  the run stays below the end of the counter's range, the selections made from
  construction on return the remaining targets in their cyclic order: the \<open>i\<close>-th
  selection returns the target at position \<open>i mod (N - 1)\<close> of the construction list
  without \<open>dead\<close>.
\<close>

theorem round_robin_one_dead:
  assumes "srvs = xs @ dead # ys" "\<not> IsAlive dead" "\<forall>s\<in>set (xs @ ys). IsAlive s"
    and "length srvs < 2 ^ 63"
  shows "(\<forall>lb s lb'. servers lb = srvs \<longrightarrow> getNextAvailableServer lb = Some (Inr s, lb')
            \<longrightarrow> s \<noteq> dead \<and> s \<in> set (xs @ ys))
       \<and> (\<forall>k. xs @ ys \<noteq> [] \<longrightarrow> k * length srvs < 2 ^ 63 \<longrightarrow>
            (\<exists>c. selections k (NewLoadBalancer p srvs)
               = Some (Inr (map (\<lambda>i. (xs @ ys) ! (i mod length (xs @ ys))) [0..<k]),
                       \<lparr>port = p, roundRobinCounter = of_nat c, servers = srvs\<rparr>)))"
proof -
  have never: "s \<noteq> dead \<and> s \<in> set (xs @ ys)"
    if "servers lb = srvs" "getNextAvailableServer lb = Some (Inr s, lb')" for lb s lb'
  proof -
    from that getNextAvailableServer_result [of lb "Inr s" lb']
    have "IsAlive s" "s \<in> set srvs" by auto
    then show ?thesis using assms(1,2) by auto
  qed
  have order: "\<exists>c. selections k (NewLoadBalancer p srvs)
               = Some (Inr (map (\<lambda>i. (xs @ ys) ! (i mod length (xs @ ys))) [0..<k]),
                       \<lparr>port = p, roundRobinCounter = of_nat c, servers = srvs\<rparr>)"
    if live: "xs @ ys \<noteq> []" and k: "k * length srvs < 2 ^ 63" for k
  proof -
  let ?lb = "NewLoadBalancer p srvs"
  have fl: "filter IsAlive srvs = xs @ ys"
    using assms(1-3) by simp
  have ne: "srvs \<noteq> []" using assms(1) by simp
  have ex: "\<exists>s\<in>set (servers ?lb). IsAlive s"
    using live assms(1,3) by (cases xs; cases ys) (auto simp: NewLoadBalancer_def)
  from selections_filter [of ?lb 0 k] ne assms(4) ex k
  obtain c where run: "selections k ?lb
          = Some (Inr (filter IsAlive (map (\<lambda>i. srvs ! (i mod length srvs)) [0..<c])),
                  \<lparr>port = p, roundRobinCounter = of_nat c, servers = srvs\<rparr>)"
    and len: "length (filter IsAlive (map (\<lambda>i. srvs ! (i mod length srvs)) [0..<c])) = k"
    by (auto simp: NewLoadBalancer_def)
  have "filter IsAlive (map (\<lambda>i. srvs ! (i mod length srvs)) [0..<c])
      = map (\<lambda>i. filter IsAlive srvs ! (i mod length (filter IsAlive srvs))) [0..<k]"
    using ne live len unfolding fl [symmetric] by (intro cyclic_filter) simp_all
    then show ?thesis
      using run unfolding fl by auto
  qed
  show ?thesis using never order by blast
qed

theorem round_robin_one_dead_witness:
  "getNextAvailableServer
     (NewLoadBalancer ''8080''
        [stubServer ''A'' True, stubServer ''B'' False, stubServer ''C'' True])
     = Some (Inr (stubServer ''A'' True),
             \<lparr>port = ''8080'', roundRobinCounter = 1,
              servers = [stubServer ''A'' True, stubServer ''B'' False, stubServer ''C'' True]\<rparr>)
   \<and> stubServer ''A'' True \<noteq> stubServer ''B'' False
   \<and> (\<exists>c. selections 3
          (NewLoadBalancer ''8080''
             [stubServer ''A'' True, stubServer ''B'' False, stubServer ''C'' True])
        = Some (Inr [stubServer ''A'' True, stubServer ''C'' True, stubServer ''A'' True],
                \<lparr>port = ''8080'', roundRobinCounter = of_nat c,
                 servers = [stubServer ''A'' True, stubServer ''B'' False,
                            stubServer ''C'' True]\<rparr>))"
proof -
  let ?A = "stubServer ''A'' True" and ?B = "stubServer ''B'' False"
  let ?C = "stubServer ''C'' True"
  let ?lb = "NewLoadBalancer ''8080'' [?A, ?B, ?C]"
  have a: "[?A, ?B, ?C] = [?A] @ ?B # [?C]" "\<not> IsAlive ?B" "\<forall>s\<in>set ([?A] @ [?C]). IsAlive s"
    "length [?A, ?B, ?C] < 2 ^ 63"
    by (simp_all add: stubServer_def)
  note th = round_robin_one_dead [OF a, of "''8080''"]
  have ev: "getNextAvailableServer ?lb
      = Some (Inr ?A, \<lparr>port = ''8080'', roundRobinCounter = 1, servers = [?A, ?B, ?C]\<rparr>)"
    by (simp add: getNextAvailableServer_def serverAtCounter_def go_rem_def go_len_def
        go_index_def skipLoop.simps stubServer_def NewLoadBalancer_def)
  have sv: "servers ?lb = [?A, ?B, ?C]" by (simp add: NewLoadBalancer_def)
  have ne: "?A \<noteq> ?B"
    using th [THEN conjunct1, rule_format, OF sv ev] by (rule conjunct1)
  have three: "map (\<lambda>i. ([?A] @ [?C]) ! (i mod length ([?A] @ [?C]))) [0..<3] = [?A, ?C, ?A]"
    by (simp add: upt_conv_Cons)
  have p: "[?A] @ [?C] \<noteq> []" "3 * length [?A, ?B, ?C] < (2::nat) ^ 63" by simp_all
  have run: "\<exists>c. selections 3 ?lb
        = Some (Inr [?A, ?C, ?A],
                \<lparr>port = ''8080'', roundRobinCounter = of_nat c, servers = [?A, ?B, ?C]\<rparr>)"
    using th [THEN conjunct2, rule_format, OF p] unfolding three .
  show ?thesis using ev ne run by (intro conjI)
qed

section \<open>Routing a request\<close>

text \<open>
  C6. \<^verbatim>\<open>serveProxy\<close> makes one selection and hands the request to the target selected:
  when the selection returns target \<open>t\<close> and leaves the load balancer in \<open>lb'\<close>, then
  \<^verbatim>\<open>serveProxy\<close> leaves it in the same \<open>lb'\<close> (the counter has moved for one selection
  only) and the single response written is the one \<open>t\<close> serves for this request, whatever
  that response is, a gateway error included: there is no second selection and no retry.
  When the selection panics or does not return, so does \<^verbatim>\<open>serveProxy\<close>, and nothing is
  served.
\<close>

theorem serveProxy_selects_once_no_retry:
  "(getNextAvailableServer lb = Some (Inr t, lb') \<longrightarrow>
      serveProxy lb req
        = Some (Inr [Stdout (''forwarding request to '' @ [CHR 0x27] @ Address t
                             @ [CHR 0x27, CHR 0x0A]),
                     Response (Serve t req)], lb'))
   \<and> (getNextAvailableServer lb = Some (Inl p, lb') \<longrightarrow> serveProxy lb req = Some (Inl p, lb'))
   \<and> (getNextAvailableServer lb = None \<longrightarrow> serveProxy lb req = None)
   \<and> (serveProxy lb req = Some (Inr effs, lb') \<longrightarrow>
        (\<exists>t. getNextAvailableServer lb = Some (Inr t, lb')
           \<and> t \<in> set (servers lb)
           \<and> filter is_Response effs = [Response (Serve t req)]))"
proof -
  have "\<exists>t. getNextAvailableServer lb = Some (Inr t, lb')
           \<and> t \<in> set (servers lb)
           \<and> filter is_Response effs = [Response (Serve t req)]"
    if "serveProxy lb req = Some (Inr effs, lb')"
  proof -
    from that obtain t where t: "getNextAvailableServer lb = Some (Inr t, lb')"
      and e: "effs = [Stdout (''forwarding request to '' @ [CHR 0x27] @ Address t
                             @ [CHR 0x27, CHR 0x0A]), Response (Serve t req)]"
      by (auto simp: serveProxy_def split: option.splits sum.splits)
    from getNextAvailableServer_result [OF t] have "t \<in> set (servers lb)" by simp
    with t e show ?thesis by auto
  qed
  then show ?thesis by (simp add: serveProxy_def)
qed

theorem serveProxy_selects_once_no_retry_witness:
  "serveProxy (NewLoadBalancer ''8080'' [unreachableServer ''A'', stubServer ''B'' True]) ''GET /''
     = Some (Inr [Stdout (''forwarding request to '' @ [CHR 0x27] @ ''A'' @ [CHR 0x27, CHR 0x0A]),
                  Response ''502 Bad Gateway''],
             \<lparr>port = ''8080'', roundRobinCounter = 1,
              servers = [unreachableServer ''A'', stubServer ''B'' True]\<rparr>)
   \<and> (\<exists>t. getNextAvailableServer
             (NewLoadBalancer ''8080'' [unreachableServer ''A'', stubServer ''B'' True])
           = Some (Inr t, \<lparr>port = ''8080'', roundRobinCounter = 1,
                           servers = [unreachableServer ''A'', stubServer ''B'' True]\<rparr>)
         \<and> filter is_Response
              [Stdout (''forwarding request to '' @ [CHR 0x27] @ ''A'' @ [CHR 0x27, CHR 0x0A]),
               Response ''502 Bad Gateway'']
            = [Response (Serve t ''GET /'')])"
proof -
  let ?srvs = "[unreachableServer ''A'', stubServer ''B'' True]"
  let ?lb = "NewLoadBalancer ''8080'' ?srvs"
  let ?lb' = "\<lparr>port = ''8080'', roundRobinCounter = 1, servers = ?srvs\<rparr>"
  have ev: "getNextAvailableServer ?lb = Some (Inr (unreachableServer ''A''), ?lb')"
    by (simp add: getNextAvailableServer_def serverAtCounter_def go_rem_def go_len_def
        go_index_def skipLoop.simps unreachableServer_def NewLoadBalancer_def)
  note th = serveProxy_selects_once_no_retry
    [of ?lb "unreachableServer ''A''" ?lb' "''GET /''" undefined
        "[Stdout (''forwarding request to '' @ [CHR 0x27] @ ''A'' @ [CHR 0x27, CHR 0x0A]),
          Response ''502 Bad Gateway'']"]
  have sp: "serveProxy ?lb ''GET /''
     = Some (Inr [Stdout (''forwarding request to '' @ [CHR 0x27] @ ''A'' @ [CHR 0x27, CHR 0x0A]),
                  Response ''502 Bad Gateway''], ?lb')"
    using th [THEN conjunct1, rule_format, OF ev] by (simp add: unreachableServer_def)
  from th [THEN conjunct2, THEN conjunct2, THEN conjunct2, rule_format, OF sp] sp
  show ?thesis by blast
qed

text \<open>
  C8. A call of \<^verbatim>\<open>getNextAvailableServer\<close> or of \<^verbatim>\<open>serveProxy\<close> that ends, with a target
  or with a panic, leaves the load balancer as it was except for \<open>roundRobinCounter\<close>:
  the port and the list of servers (length, order and elements) are the same.
\<close>

theorem selection_changes_only_counter:
  "(getNextAvailableServer lb = Some (r, lb') \<longrightarrow>
      port lb' = port lb \<and> servers lb' = servers lb
      \<and> lb' = lb\<lparr>roundRobinCounter := roundRobinCounter lb'\<rparr>)
   \<and> (serveProxy lb req = Some (e, lb'') \<longrightarrow>
      port lb'' = port lb \<and> servers lb'' = servers lb
      \<and> lb'' = lb\<lparr>roundRobinCounter := roundRobinCounter lb''\<rparr>)"
proof -
  have frame: "port l' = port l \<and> servers l' = servers l"
    if "l' = l\<lparr>roundRobinCounter := c\<rparr>" for l l' :: "('a, 'b) LoadBalancer" and c
    using that by simp
  have sel: "lb' = lb\<lparr>roundRobinCounter := roundRobinCounter lb'\<rparr>"
    if "getNextAvailableServer lb = Some (r, lb')"
    using getNextAvailableServer_result [OF that] by simp
  have prx: "lb'' = lb\<lparr>roundRobinCounter := roundRobinCounter lb''\<rparr>"
    if "serveProxy lb req = Some (e, lb'')"
  proof -
    from that obtain r0 where "getNextAvailableServer lb = Some (r0, lb'')"
      by (auto simp: serveProxy_def split: option.splits sum.splits)
    from getNextAvailableServer_result [OF this] show ?thesis by simp
  qed
  show ?thesis using sel prx frame by blast
qed


theorem selection_changes_only_counter_witness:
  "getNextAvailableServer
     (NewLoadBalancer ''8080'' [stubServer ''A'' False, stubServer ''B'' True])
     = Some (Inr (stubServer ''B'' True),
             \<lparr>port = ''8080'', roundRobinCounter = 2,
              servers = [stubServer ''A'' False, stubServer ''B'' True]\<rparr>)
   \<and> port \<lparr>port = ''8080'', roundRobinCounter = 2,
             servers = [stubServer ''A'' False, stubServer ''B'' True]\<rparr>
       = port (NewLoadBalancer ''8080'' [stubServer ''A'' False, stubServer ''B'' True])
   \<and> servers \<lparr>port = ''8080'', roundRobinCounter = 2,
                servers = [stubServer ''A'' False, stubServer ''B'' True]\<rparr>
       = servers (NewLoadBalancer ''8080'' [stubServer ''A'' False, stubServer ''B'' True])
   \<and> serveProxy
       (NewLoadBalancer ''8080'' [stubServer ''A'' False, stubServer ''B'' True]) ''GET /''
     = Some (Inr [Stdout (''forwarding request to '' @ [CHR 0x27] @ ''B'' @ [CHR 0x27, CHR 0x0A]),
                  Response ''B:GET /''],
             \<lparr>port = ''8080'', roundRobinCounter = 2,
              servers = [stubServer ''A'' False, stubServer ''B'' True]\<rparr>)"
proof -
  let ?srvs = "[stubServer ''A'' False, stubServer ''B'' True]"
  let ?lb = "NewLoadBalancer ''8080'' ?srvs"
  let ?lb' = "\<lparr>port = ''8080'', roundRobinCounter = 2, servers = ?srvs\<rparr>"
  let ?e = "Inr [Stdout (''forwarding request to '' @ [CHR 0x27] @ ''B'' @ [CHR 0x27, CHR 0x0A]),
                 Response ''B:GET /'']"
  have ev: "getNextAvailableServer ?lb = Some (Inr (stubServer ''B'' True), ?lb')"
    by (simp add: getNextAvailableServer_def serverAtCounter_def go_rem_def go_len_def
        go_index_def skipLoop.simps stubServer_def NewLoadBalancer_def signed_modulo_int_def)
  have sp: "serveProxy ?lb ''GET /'' = Some (?e, ?lb')"
    by (simp add: serveProxy_def ev) (simp add: stubServer_def)
  note th = selection_changes_only_counter
    [of ?lb "Inr (stubServer ''B'' True)" ?lb' "''GET /''" ?e ?lb']
  from th [THEN conjunct1, rule_format, OF ev] th [THEN conjunct2, rule_format, OF sp] ev sp
  show ?thesis by blast
qed

section \<open>Constructing a target\<close>

text \<open>
  C7. \<^verbatim>\<open>newSimpleServer\<close> parses the address. When parsing reports an error, the process
  prints it and exits with status 1, and no server is returned; every exit of
  \<^verbatim>\<open>newSimpleServer\<close> has a non-zero status and comes from a parse error. When parsing
  succeeds, the server returned has the given address as its \<open>Address\<close> and a reverse
  proxy for the parsed URL.
\<close>

theorem newSimpleServer_exits_or_returns:
  "(snd (parse addr) = Some msg \<longrightarrow>
      newSimpleServer parse addr = Exit (''error: '' @ msg @ [CHR 0x0A]) 1)
   \<and> (snd (parse addr) = None \<longrightarrow>
        (\<exists>s. newSimpleServer parse addr = Return s
           \<and> simpleServer_Address s = addr
           \<and> Address (asServer serveHTTP s) = addr
           \<and> proxy s = NewSingleHostReverseProxy (fst (parse addr))))
   \<and> (\<forall>out status. newSimpleServer parse addr = Exit out status \<longrightarrow>
         status \<noteq> 0 \<and> snd (parse addr) \<noteq> None)
   \<and> (\<forall>s. newSimpleServer parse addr = Return s \<longrightarrow> snd (parse addr) = None)"
  by (cases "parse addr")
    (auto simp: newSimpleServer_def handleErr_def simpleServer_Address_def asServer_def
      split: option.splits)

theorem newSimpleServer_exits_or_returns_witness:
  "newSimpleServer parseStub ''https://www bing com''
     = Exit (''error: '' @ ''invalid character in host name'' @ [CHR 0x0A]) 1
   \<and> (\<exists>s. newSimpleServer parseStub ''https://www.google.com'' = Return s
         \<and> simpleServer_Address s = ''https://www.google.com''
         \<and> Address (asServer (\<lambda>p r. r) s) = ''https://www.google.com''
         \<and> proxy s = NewSingleHostReverseProxy (fst (parseStub ''https://www.google.com'')))"
proof -
  have bad: "snd (parseStub ''https://www bing com'') = Some ''invalid character in host name''"
    by (simp add: parseStub_def)
  have good: "snd (parseStub ''https://www.google.com'') = None"
    by (simp add: parseStub_def)
  from newSimpleServer_exits_or_returns
         [of parseStub "''https://www bing com''" "''invalid character in host name''",
          THEN conjunct1, rule_format, OF bad]
       newSimpleServer_exits_or_returns
         [of parseStub "''https://www.google.com''" _ "\<lambda>p r. r",
          THEN conjunct2, THEN conjunct1, rule_format, OF good]
  show ?thesis by blast
qed

section \<open>Termination of the skip loop\<close>

lemma dead_at_any_index:
  "xs \<noteq> [] \<Longrightarrow> \<forall>s\<in>set xs. \<not> IsAlive s \<Longrightarrow> \<not> IsAlive (xs ! (k mod length xs))"
  by simp

text \<open>
  A negative counter: Go's remainder is then zero or negative, so the index is in range
  only for a counter that is a multiple of the length, and then it is \<open>0\<close>.
\<close>

lemma sint_succ_negative:
  fixes w :: go_int
  assumes "sint w < 0"
  shows "sint (w + 1) = sint w + 1"
proof -
  have "- (2 ^ 63) \<le> sint w" using sint_ge [of w] by simp
  then have "signed_take_bit 63 (sint w + 1) = sint w + 1"
    using assms by (intro signed_take_bit_int_eq_self) simp_all
  then show ?thesis by (simp add: sint_word_ariths)
qed

lemma counter_as_nat:
  fixes w :: go_int
  assumes "0 \<le> sint w"
  shows "w = of_nat (nat (sint w))" "nat (sint w) < 2 ^ 63"
proof -
  have "of_nat (nat (sint w)) = (word_of_int (sint w) :: go_int)"
    using assms by (simp add: of_nat_nat)
  then show "w = of_nat (nat (sint w))" by simp
  show "nat (sint w) < 2 ^ 63" using sint_lt [of w] assms by simp
qed

lemma negative_counter_index:
  assumes "sint (roundRobinCounter lb) < 0" "length (servers lb) < 2 ^ 63"
    and "serverAtCounter lb = Inr s"
  shows "int (length (servers lb)) dvd sint (roundRobinCounter lb) \<and> s = servers lb ! 0"
proof -
  let ?z = "sint (roundRobinCounter lb)"
  let ?n = "int (length (servers lb))"
  let ?r = "(- ?z) mod ?n"
  have len0: "go_len (servers lb) \<noteq> 0"
    using assms(3) by (auto simp: serverAtCounter_def go_rem_def split: if_splits)
  then have n: "0 < ?n" by (auto simp: go_len_def)
  have l: "sint (go_len (servers lb)) = ?n"
    using assms(2) by (simp add: go_len_def sint_of_nat_small)
  have sm: "?z smod ?n = - ?r"
    using assms(1) n by (simp add: signed_modulo_int_def)
  have r: "0 \<le> ?r" "?r < ?n" using n by simp_all
  have "?n < 2 ^ 63" using assms(2) by simp
  then have "sint (word_of_int (- ?r) :: go_int) = - ?r"
    using r by (intro sint_word_of_int_small) linarith+
  then have ix: "go_index (servers lb) (word_of_int (- ?r)) = Inr s"
    using assms(3) len0 by (simp add: serverAtCounter_def go_rem_def l sm)
  then have "?r = 0"
    using r \<open>sint (word_of_int (- ?r) :: go_int) = - ?r\<close>
    by (auto simp: go_index_def split: if_splits)
  then have "?n dvd ?z" by (simp add: dvd_eq_mod_eq_0 [symmetric] mod_eq_0_iff_dvd)
  moreover have "s = servers lb ! 0"
    using ix \<open>?r = 0\<close> by (auto simp: go_index_def split: if_splits)
  ultimately show ?thesis by simp
qed


text \<open>With a target that is alive the loop ends from every counter value.\<close>

lemma skipLoop_negative_terminates:
  assumes neg: "sint (roundRobinCounter lb) < 0" and len: "length (servers lb) < 2 ^ 63"
    and alive: "\<exists>s\<in>set (servers lb). IsAlive s"
    and at: "serverAtCounter lb = Inr s"
  shows "\<exists>y. skipLoop lb s = Some y"
proof (cases "IsAlive s")
  case True
  then show ?thesis by (subst skipLoop.simps) simp
next
  case False
  let ?z = "sint (roundRobinCounter lb)"
  let ?n = "length (servers lb)"
  let ?lb = "lb\<lparr>roundRobinCounter := roundRobinCounter lb + 1\<rparr>"
  from negative_counter_index [OF neg len at]
  have dv: "int ?n dvd ?z" and s0: "s = servers lb ! 0" by simp_all
  have ne: "servers lb \<noteq> []" using alive by auto
  have z': "sint (roundRobinCounter ?lb) = ?z + 1"
    using sint_succ_negative [OF neg] by simp
  show ?thesis
  proof (cases "serverAtCounter ?lb")
    case (Inl p)
    with False show ?thesis by (subst skipLoop.simps) simp
  next
    case (Inr s')
    have "\<exists>y. skipLoop ?lb s' = Some y"
    proof (cases "?z + 1 < 0")
      case True
      then have "sint (roundRobinCounter ?lb) < 0" using z' by simp
      from negative_counter_index [OF this _ Inr] len
      have "int ?n dvd ?z + 1" using z' by simp
      with dv have "int ?n dvd 1" using dvd_add_right_iff by blast
      then have "?n = 1" by simp
      then obtain x where "servers lb = [x]"
        by (cases "servers lb") simp_all
      with alive s0 False show ?thesis by simp
    next
      case False
      then have "sint (roundRobinCounter ?lb) = 0" using z' neg by simp
      then have c0: "roundRobinCounter ?lb = of_nat 0"
        using counter_as_nat(1) [of "roundRobinCounter ?lb"] by simp
      have s': "s' = servers ?lb ! (0 mod length (servers ?lb))"
        using serverAtCounter_nat [OF c0] ne len Inr by simp
      from exists_skip [OF ne alive, of 0]
      obtain d where d: "d < ?n" "\<forall>i<d. \<not> IsAlive (servers lb ! ((0 + i) mod ?n))"
        "IsAlive (servers lb ! ((0 + d) mod ?n))" by blast
      have "0 + d < (2::nat) ^ 63" using d(1) len by simp
      from skipLoop_nat [of ?lb 0 d, OF _ _ c0 this] ne len d(2,3) s'
      show ?thesis by simp
    qed
    then show ?thesis
      using False Inr by (subst skipLoop.simps) simp
  qed
qed

lemma skipLoop_terminates:
  assumes ne: "servers lb \<noteq> []" and len: "length (servers lb) < 2 ^ 63"
    and alive: "\<exists>s\<in>set (servers lb). IsAlive s"
    and cnt: "roundRobinCounter lb = of_nat c" and c: "c < 2 ^ 63"
  shows "\<exists>y. skipLoop lb (servers lb ! (c mod length (servers lb))) = Some y"
proof -
  let ?n = "length (servers lb)"
  from exists_skip [OF ne alive, of c]
  obtain d where d: "d < ?n" "\<forall>i<d. \<not> IsAlive (servers lb ! ((c + i) mod ?n))"
    "IsAlive (servers lb ! ((c + d) mod ?n))" by blast
  show ?thesis
  proof (cases "c + d < 2 ^ 63")
    case True
    from skipLoop_nat [OF ne len cnt True d(2,3)] show ?thesis by simp
  next
    case False
    define j where "j = 2 ^ 63 - 1 - c"
    have j: "c + j = 2 ^ 63 - 1" "j < d" using c False by (simp_all add: j_def)
    let ?lbj = "lb\<lparr>roundRobinCounter := of_nat (c + j)\<rparr>"
    let ?lb' = "?lbj\<lparr>roundRobinCounter := roundRobinCounter ?lbj + 1\<rparr>"
    have "c + j < 2 ^ 63" using j(1) by simp
    moreover have "\<forall>i<j. \<not> IsAlive (servers lb ! ((c + i) mod ?n))"
      using d(2) j(2) by simp
    ultimately have adv: "skipLoop lb (servers lb ! (c mod ?n))
        = skipLoop ?lbj (servers lb ! ((c + j) mod ?n))"
      using skipLoop_advance [OF ne len cnt] by blast
    have dead: "\<not> IsAlive (servers lb ! ((c + j) mod ?n))"
      using d(2) j(2) by simp
    have neg: "sint (roundRobinCounter ?lb') < 0"
      by (simp add: j(1))
    have "\<exists>y. skipLoop ?lbj (servers lb ! ((c + j) mod ?n)) = Some y"
    proof (cases "serverAtCounter ?lb'")
      case (Inl p)
      with dead show ?thesis by (subst skipLoop.simps) simp
    next
      case (Inr s')
      from skipLoop_negative_terminates [OF neg _ _ Inr] len alive
      have "\<exists>y. skipLoop ?lb' s' = Some y" by simp
      then show ?thesis
        using dead Inr by (subst skipLoop.simps) simp
    qed
    then show ?thesis using adv by simp
  qed
qed

lemma getNextAvailableServer_terminates:
  assumes len: "length (servers lb) < 2 ^ 63"
    and alive: "\<exists>s\<in>set (servers lb). IsAlive s"
  shows "\<exists>r lb'. getNextAvailableServer lb = Some (r, lb')"
proof (cases "serverAtCounter lb")
  case (Inl p)
  then show ?thesis by (simp add: getNextAvailableServer_def)
next
  case (Inr s)
  have ne: "servers lb \<noteq> []" using alive by auto
  have "\<exists>y. skipLoop lb s = Some y"
  proof (cases "sint (roundRobinCounter lb) < 0")
    case True
    from skipLoop_negative_terminates [OF True len alive Inr] show ?thesis .
  next
    case False
    then have nn: "0 \<le> sint (roundRobinCounter lb)" by simp
    note c = counter_as_nat [OF nn]
    from serverAtCounter_nat [OF c ne len] Inr
    have "s = servers lb ! (nat (sint (roundRobinCounter lb)) mod length (servers lb))"
      by simp
    with skipLoop_terminates [OF ne len alive c] show ?thesis by simp
  qed
  then obtain r lb0 where "skipLoop lb s = Some (r, lb0)" by auto
  then show ?thesis
    using Inr by (cases r) (simp_all add: getNextAvailableServer_def)
qed


text \<open>
  A single target that is not alive: the index is \<open>0\<close> for every counter value, wrapped
  around or not, and the loop has no result.
\<close>

lemma single_target_index:
  "length (servers lb) = 1 \<Longrightarrow> serverAtCounter lb = Inr (servers lb ! 0)"
  by (simp add: serverAtCounter_def go_rem_def go_len_def go_index_def signed_modulo_int_def)

lemma single_dead_target_no_result:
  assumes "skipLoop lb s = Some y"
  shows "\<not> (length (servers lb) = 1 \<and> \<not> IsAlive s \<and> s = servers lb ! 0)"
  using assms
proof (induction rule: skipLoop.raw_induct [rotated 1, consumes 1])
  case (1 skipLoop' lb server y)
  show ?case
  proof
    assume H: "length (servers lb) = 1 \<and> \<not> IsAlive server \<and> server = servers lb ! 0"
    let ?lb = "lb\<lparr>roundRobinCounter := roundRobinCounter lb + 1\<rparr>"
    have at: "serverAtCounter ?lb = Inr (servers lb ! 0)"
      using single_target_index [of ?lb] H by simp
    have dead: "\<not> IsAlive server" using H by blast
    have "skipLoop' ?lb (servers lb ! 0) = Some y"
      using 1(2) by (simp add: dead at)
    from 1(1) [OF this] H show False by auto
  qed
qed

lemma single_dead_target_diverges:
  assumes "length (servers lb) = 1" "\<forall>s\<in>set (servers lb). \<not> IsAlive s"
  shows "getNextAvailableServer lb = None"
proof -
  have "\<not> IsAlive (servers lb ! 0)" using assms by simp
  then have "skipLoop lb (servers lb ! 0) = None"
    using single_dead_target_no_result [of lb "servers lb ! 0"] assms(1)
    by (cases "skipLoop lb (servers lb ! 0)") auto
  then show ?thesis
    by (simp add: getNextAvailableServer_def single_target_index [OF assms(1)])
qed

lemma getNextAvailableServer_advance:
  assumes "servers lb \<noteq> []" "length (servers lb) < 2 ^ 63"
    and "\<forall>s\<in>set (servers lb). \<not> IsAlive s"
    and "roundRobinCounter lb = of_nat c" "c + j < 2 ^ 63"
  shows "getNextAvailableServer lb
       = getNextAvailableServer (lb\<lparr>roundRobinCounter := of_nat (c + j)\<rparr>)"
proof -
  let ?n = "length (servers lb)"
  let ?lbj = "lb\<lparr>roundRobinCounter := of_nat (c + j)\<rparr>"
  have "c < 2 ^ 63" using assms(5) by simp
  then have at: "serverAtCounter lb = Inr (servers lb ! (c mod ?n))"
    using serverAtCounter_nat [OF assms(4) _ assms(1,2)] by simp
  have atj: "serverAtCounter ?lbj = Inr (servers lb ! ((c + j) mod ?n))"
    using serverAtCounter_nat [of ?lbj "c + j"] assms(1,2,5) by simp
  have "\<forall>i<j. \<not> IsAlive (servers lb ! ((c + i) mod ?n))"
    using dead_at_any_index [OF assms(1,3)] by blast
  from skipLoop_advance [OF assms(1,2,4,5) this]
  show ?thesis
    unfolding getNextAvailableServer_def at atj by (simp only: sum.case)
qed


lemma getNextAvailableServer_returns:
  assumes ne: "servers lb \<noteq> []" and len: "length (servers lb) < 2 ^ 63"
    and alive: "\<exists>s\<in>set (servers lb). IsAlive s"
    and cnt: "roundRobinCounter lb = of_nat c" and c: "c + length (servers lb) \<le> 2 ^ 63"
  shows "\<exists>d<length (servers lb).
           (\<forall>i<d. \<not> IsAlive (servers lb ! ((c + i) mod length (servers lb))))
         \<and> IsAlive (servers lb ! ((c + d) mod length (servers lb)))
         \<and> getNextAvailableServer lb
             = Some (Inr (servers lb ! ((c + d) mod length (servers lb))),
                     lb\<lparr>roundRobinCounter := of_nat (Suc (c + d))\<rparr>)"
proof -
  from exists_skip [OF ne alive, of c]
  obtain d where d: "d < length (servers lb)"
    "\<forall>i<d. \<not> IsAlive (servers lb ! ((c + i) mod length (servers lb)))"
    "IsAlive (servers lb ! ((c + d) mod length (servers lb)))" by blast
  have "c + d < 2 ^ 63" using d(1) c by simp
  from getNextAvailableServer_nat [OF ne len cnt this d(2,3)] d show ?thesis by blast
qed

text \<open>
  Over a non-empty list of targets the call of \<^verbatim>\<open>getNextAvailableServer\<close> ends, from every
  state, whenever at least one target is alive, and it ends by returning a target that is
  alive when the counter does not overflow during the call. When no target is alive the
  call never returns a target, and there is no other result it could return than a panic
  of the Go runtime; the scan is not bounded to one cycle through the list: the call
  started at counter \<open>c\<close> is the call started at any later counter \<open>c + j\<close> below \<open>2 ^ 63\<close>.
  With a single target that is not alive the call does not end at all.
\<close>

theorem skip_loop_termination:
  assumes "servers lb \<noteq> []" "length (servers lb) < 2 ^ 63"
  shows "((\<exists>s\<in>set (servers lb). IsAlive s) \<longrightarrow>
            (\<exists>r lb'. getNextAvailableServer lb = Some (r, lb'))
          \<and> (\<forall>c. roundRobinCounter lb = of_nat c \<longrightarrow> c + length (servers lb) \<le> 2 ^ 63 \<longrightarrow>
                (\<exists>s lb'. getNextAvailableServer lb = Some (Inr s, lb') \<and> IsAlive s)))
       \<and> ((\<forall>s\<in>set (servers lb). \<not> IsAlive s) \<longrightarrow>
            (\<forall>s lb'. getNextAvailableServer lb \<noteq> Some (Inr s, lb'))
          \<and> (length (servers lb) = 1 \<longrightarrow> getNextAvailableServer lb = None)
          \<and> (\<forall>c j. roundRobinCounter lb = of_nat c \<longrightarrow> c + j < 2 ^ 63 \<longrightarrow>
                getNextAvailableServer lb
                  = getNextAvailableServer (lb\<lparr>roundRobinCounter := of_nat (c + j)\<rparr>)))"
proof -
  have a1: "\<exists>r lb'. getNextAvailableServer lb = Some (r, lb')"
    if "\<exists>s\<in>set (servers lb). IsAlive s"
    using getNextAvailableServer_terminates [OF assms(2) that] .
  have a2: "\<exists>s lb'. getNextAvailableServer lb = Some (Inr s, lb') \<and> IsAlive s"
    if "\<exists>s\<in>set (servers lb). IsAlive s" "roundRobinCounter lb = of_nat c"
      "c + length (servers lb) \<le> 2 ^ 63" for c
    using getNextAvailableServer_returns [OF assms that] by blast
  have b1: "getNextAvailableServer lb \<noteq> Some (Inr s, lb')"
    if "\<forall>s\<in>set (servers lb). \<not> IsAlive s" for s lb'
    using getNextAvailableServer_result [of lb "Inr s" lb'] that by auto
  have b2: "getNextAvailableServer lb = None"
    if "\<forall>s\<in>set (servers lb). \<not> IsAlive s" "length (servers lb) = 1"
    using single_dead_target_diverges [OF that(2,1)] .
  have b3: "getNextAvailableServer lb
                  = getNextAvailableServer (lb\<lparr>roundRobinCounter := of_nat (c + j)\<rparr>)"
    if "\<forall>s\<in>set (servers lb). \<not> IsAlive s" "roundRobinCounter lb = of_nat c" "c + j < 2 ^ 63"
    for c j
    using getNextAvailableServer_advance [OF assms that] .
  show ?thesis using a1 a2 b1 b2 b3 by blast
qed

theorem skip_loop_termination_witness:
  "(\<exists>s lb'. getNextAvailableServer
       (NewLoadBalancer ''8080'' [stubServer ''A'' False, stubServer ''B'' True])
       = Some (Inr s, lb') \<and> IsAlive s)
   \<and> getNextAvailableServer (NewLoadBalancer ''8080'' [stubServer ''A'' False]) = None
   \<and> getNextAvailableServer
       (NewLoadBalancer ''8080'' [stubServer ''A'' False, stubServer ''B'' False])
     = getNextAvailableServer
         \<lparr>port = ''8080'', roundRobinCounter = 1000000,
          servers = [stubServer ''A'' False, stubServer ''B'' False]\<rparr>"
proof -
  let ?l1 = "NewLoadBalancer ''8080'' [stubServer ''A'' False, stubServer ''B'' True]"
  let ?l2 = "NewLoadBalancer ''8080'' [stubServer ''A'' False]"
  let ?l3 = "NewLoadBalancer ''8080'' [stubServer ''A'' False, stubServer ''B'' False]"
  have h1: "servers ?l1 \<noteq> []" "length (servers ?l1) < 2 ^ 63"
    and e1: "\<exists>s\<in>set (servers ?l1). IsAlive s"
    and c1: "roundRobinCounter ?l1 = of_nat 0" "0 + length (servers ?l1) \<le> 2 ^ 63"
    by (simp_all add: NewLoadBalancer_def stubServer_def)
  have h2: "servers ?l2 \<noteq> []" "length (servers ?l2) < 2 ^ 63"
    and d2: "\<forall>s\<in>set (servers ?l2). \<not> IsAlive s" "length (servers ?l2) = 1"
    by (simp_all add: NewLoadBalancer_def stubServer_def)
  have h3: "servers ?l3 \<noteq> []" "length (servers ?l3) < 2 ^ 63"
    and d3: "\<forall>s\<in>set (servers ?l3). \<not> IsAlive s"
    and c3: "roundRobinCounter ?l3 = of_nat 0" "0 + 1000000 < (2::nat) ^ 63"
    by (simp_all add: NewLoadBalancer_def stubServer_def)
  have t1: "\<exists>s lb'. getNextAvailableServer ?l1 = Some (Inr s, lb') \<and> IsAlive s"
    using skip_loop_termination [OF h1, THEN conjunct1, THEN mp, OF e1,
        THEN conjunct2, THEN spec, THEN mp, THEN mp, OF c1] .
  have t2: "getNextAvailableServer ?l2 = None"
    using skip_loop_termination [OF h2, THEN conjunct2, THEN mp, OF d2(1),
        THEN conjunct2, THEN conjunct1, THEN mp, OF d2(2)] .
  have t3: "getNextAvailableServer ?l3
      = getNextAvailableServer (?l3\<lparr>roundRobinCounter := of_nat (0 + 1000000)\<rparr>)"
    using skip_loop_termination [OF h3, THEN conjunct2, THEN mp, OF d3,
        THEN conjunct2, THEN conjunct2, THEN spec, THEN spec, THEN mp, THEN mp, OF c3] .
  have "?l3\<lparr>roundRobinCounter := of_nat (0 + 1000000)\<rparr>
      = \<lparr>port = ''8080'', roundRobinCounter = 1000000,
         servers = [stubServer ''A'' False, stubServer ''B'' False]\<rparr>"
    by (simp add: NewLoadBalancer_def)
  with t3 have t3': "getNextAvailableServer ?l3
      = getNextAvailableServer \<lparr>port = ''8080'', roundRobinCounter = 1000000,
         servers = [stubServer ''A'' False, stubServer ''B'' False]\<rparr>" by simp
  show ?thesis using t1 t2 t3' by (intro conjI)
qed

text \<open>
  C3. The code at the end of the counter's range. With two targets, none alive, a load
  balancer fresh from \<^verbatim>\<open>NewLoadBalancer\<close> does end its first selection: the loop
  increments the counter \<open>2 ^ 63 + 1\<close> times, past the largest \<^verbatim>\<open>int\<close>, to
  \<open>- (2 ^ 63) + 1\<close>, where the remainder by \<open>2\<close> is \<open>- 1\<close> and indexing panics.
\<close>

theorem all_dead_loop_ends_in_panic:
  "getNextAvailableServer
     (NewLoadBalancer ''8080'' [stubServer ''A'' False, stubServer ''B'' False])
   = Some (Inl (IndexOutOfRange (- 1)),
           \<lparr>port = ''8080'', roundRobinCounter = - (2 ^ 63 - 1),
            servers = [stubServer ''A'' False, stubServer ''B'' False]\<rparr>)"
proof -
  let ?srvs = "[stubServer ''A'' False, stubServer ''B'' False]"
  let ?lb = "NewLoadBalancer ''8080'' ?srvs"
  have dead: "\<forall>s\<in>set (servers ?lb). \<not> IsAlive s"
    by (simp add: NewLoadBalancer_def stubServer_def)
  have ne: "servers ?lb \<noteq> []" "length (servers ?lb) < 2 ^ 63"
    "roundRobinCounter ?lb = of_nat 0" "0 + (2 ^ 63 - 1) < (2::nat) ^ 63"
    by (simp_all add: NewLoadBalancer_def)
  have all: "\<forall>i<2 ^ 63 - 1. \<not> IsAlive (servers ?lb ! ((0 + i) mod length (servers ?lb)))"
    using dead_at_any_index [OF ne(1) dead] by blast
  have at: "serverAtCounter ?lb = Inr (stubServer ''A'' False)"
    by (simp add: serverAtCounter_def go_rem_def go_len_def go_index_def NewLoadBalancer_def)
  have len: "length (servers ?lb) = 2"
    by (simp add: NewLoadBalancer_def)
  have m: "((0::nat) + (2 ^ 63 - 1)) mod 2 = 1"
    by simp
  have "skipLoop ?lb (stubServer ''A'' False)
      = skipLoop (?lb\<lparr>roundRobinCounter := of_nat (0 + (2 ^ 63 - 1))\<rparr>)
          (servers ?lb ! ((0 + (2 ^ 63 - 1)) mod length (servers ?lb)))"
    using skipLoop_advance [OF ne all] by (simp add: NewLoadBalancer_def)
  also have "\<dots> = Some (Inl (IndexOutOfRange (- 1)),
           \<lparr>port = ''8080'', roundRobinCounter = - (2 ^ 63 - 1), servers = ?srvs\<rparr>)"
    unfolding len m
    by (simp add: serverAtCounter_def go_rem_def go_len_def NewLoadBalancer_def
        go_index_def skipLoop.simps stubServer_def signed_modulo_int_def)
  finally show ?thesis
    by (simp add: getNextAvailableServer_def at)
qed

section \<open>The counter at the end of its range\<close>

text \<open>A run of \<open>a + b\<close> selections is a run of \<open>a\<close> followed by a run of \<open>b\<close>.\<close>

lemma selections_add:
  "selections (a + b) lb =
     (case selections a lb of
        None \<Rightarrow> None
      | Some (Inl p, lb') \<Rightarrow> Some (Inl p, lb')
      | Some (Inr xs, lb') \<Rightarrow>
          (case selections b lb' of
             None \<Rightarrow> None
           | Some (Inl p, lb'') \<Rightarrow> Some (Inl p, lb'')
           | Some (Inr ys, lb'') \<Rightarrow> Some (Inr (xs @ ys), lb'')))"
proof (induction a arbitrary: lb)
  case 0
  show ?case by (auto split: option.splits sum.splits)
next
  case (Suc a)
  show ?case
    by (auto simp: Suc.IH split: option.splits sum.splits)
qed

text \<open>
  Over three targets of which the second is not alive, two selections take the counter
  from one multiple of \<open>3\<close> to the next and return the first and the third target.
\<close>

lemma one_dead_cycle:
  assumes srv: "servers lb = [a, b, c]" and live: "IsAlive a" "\<not> IsAlive b" "IsAlive c"
    and cnt: "roundRobinCounter lb = of_nat (3 * m)" and bound: "3 * m + 2 < 2 ^ 63"
  shows "selections 2 lb = Some (Inr [a, c], lb\<lparr>roundRobinCounter := of_nat (3 * m + 3)\<rparr>)"
proof -
  let ?lb1 = "lb\<lparr>roundRobinCounter := of_nat (Suc (3 * m + 0))\<rparr>"
  have ne: "servers lb \<noteq> []" "length (servers lb) < 2 ^ 63" using srv by simp_all
  have m0: "(3 * m) mod 3 = 0" "(3 * m + 1) mod 3 = 1" "(3 * m + 2) mod 3 = 2"
    by presburger+
  have b0: "3 * m + 0 < 2 ^ 63" using bound by simp
  have first: "getNextAvailableServer lb = Some (Inr a, ?lb1)"
    using getNextAvailableServer_nat [OF ne cnt b0] live(1) srv m0 by simp
  have ne1: "servers ?lb1 \<noteq> []" "length (servers ?lb1) < 2 ^ 63" using srv by simp_all
  have cnt1: "roundRobinCounter ?lb1 = of_nat (3 * m + 1)" by simp
  have b1: "3 * m + 1 + 1 < 2 ^ 63" using bound by simp
  have dead: "\<forall>i<1. \<not> IsAlive (servers ?lb1 ! ((3 * m + 1 + i) mod length (servers ?lb1)))"
    using live(2) srv m0 by simp
  have alive: "IsAlive (servers ?lb1 ! ((3 * m + 1 + 1) mod length (servers ?lb1)))"
    using live(3) srv m0 by simp
  have second: "getNextAvailableServer ?lb1
      = Some (Inr c, lb\<lparr>roundRobinCounter := of_nat (3 * m + 3)\<rparr>)"
    using getNextAvailableServer_nat [OF ne1 cnt1 b1 dead alive] srv m0 by simp
  have two: "(2::nat) = Suc (Suc 0)" by simp
  show ?thesis
    unfolding two selections.simps first
    by (simp only: second option.case prod.case sum.case selections.simps)
qed

lemma one_dead_cycles:
  "servers lb = [a, b, c] \<Longrightarrow> IsAlive a \<Longrightarrow> \<not> IsAlive b \<Longrightarrow> IsAlive c \<Longrightarrow>
   roundRobinCounter lb = of_nat (3 * m) \<Longrightarrow> 3 * (m + j) \<le> 2 ^ 63 \<Longrightarrow>
   selections (2 * j) lb
     = Some (Inr (concat (replicate j [a, c])), lb\<lparr>roundRobinCounter := of_nat (3 * (m + j))\<rparr>)"
proof (induction j arbitrary: m lb)
  case 0
  have "lb\<lparr>roundRobinCounter := of_nat (3 * m)\<rparr> = lb" using "0.prems"(5) by simp
  then show ?case by simp
next
  case (Suc j)
  let ?lb1 = "lb\<lparr>roundRobinCounter := of_nat (3 * m + 3)\<rparr>"
  have "3 * m + 2 < 2 ^ 63" using Suc.prems(6) by simp
  from one_dead_cycle [OF Suc.prems(1-5) this]
  have cyc: "selections 2 lb = Some (Inr [a, c], ?lb1)" .
  have cnt1: "roundRobinCounter ?lb1 = of_nat (3 * Suc m)" by (simp add: algebra_simps)
  have "selections (2 * j) ?lb1
     = Some (Inr (concat (replicate j [a, c])),
             ?lb1\<lparr>roundRobinCounter := of_nat (3 * (Suc m + j))\<rparr>)"
    using Suc.prems by (intro Suc.IH [OF _ _ _ _ cnt1]) simp_all
  then have rest: "selections (2 * j) ?lb1
     = Some (Inr (concat (replicate j [a, c])),
             lb\<lparr>roundRobinCounter := of_nat (3 * (m + Suc j))\<rparr>)"
    by simp
  have "selections (2 * Suc j) lb = selections (2 + 2 * j) lb" by simp
  also have "\<dots> = Some (Inr ([a, c] @ concat (replicate j [a, c])),
             lb\<lparr>roundRobinCounter := of_nat (3 * (m + Suc j))\<rparr>)"
    unfolding selections_add [of 2 "2 * j"] cyc
    by (simp only: rest option.case prod.case sum.case)
  finally show ?case by simp
qed

text \<open>
  C2. The code at the end of the counter's range. Over \<open>[A, B, C]\<close> with \<open>B\<close> not alive the
  selections made from construction return \<open>A, C, A, C, ...\<close> for
  \<open>2 * 3074457345618258602\<close> selections, which leave the counter at \<open>2 ^ 63 - 2\<close>. The next
  selection returns \<open>A\<close> and leaves the counter at \<open>2 ^ 63 - 1\<close>; the one after it finds \<open>B\<close>
  not alive, wraps the counter to \<open>- (2 ^ 63)\<close> and panics on the index \<open>- 2\<close>: the cyclic
  order among the targets that are alive ends there.
\<close>

theorem counter_overflow_breaks_order:
  "selections (2 * 3074457345618258602 + 2)
     (NewLoadBalancer ''8080''
        [stubServer ''A'' True, stubServer ''B'' False, stubServer ''C'' True])
   = Some (Inl (IndexOutOfRange (- 2)),
           \<lparr>port = ''8080'', roundRobinCounter = - (2 ^ 63),
            servers = [stubServer ''A'' True, stubServer ''B'' False, stubServer ''C'' True]\<rparr>)"
proof -
  let ?srvs = "[stubServer ''A'' True, stubServer ''B'' False, stubServer ''C'' True]"
  let ?lb = "NewLoadBalancer ''8080'' ?srvs"
  let ?lb1 = "\<lparr>port = ''8080'', roundRobinCounter = 2 ^ 63 - 2, servers = ?srvs\<rparr>"
  let ?lb2 = "\<lparr>port = ''8080'', roundRobinCounter = 2 ^ 63 - 1, servers = ?srvs\<rparr>"
  let ?lb3 = "\<lparr>port = ''8080'', roundRobinCounter = - (2 ^ 63), servers = ?srvs\<rparr>"
  have h: "servers ?lb = ?srvs" "IsAlive (stubServer ''A'' True)"
    "\<not> IsAlive (stubServer ''B'' False)" "IsAlive (stubServer ''C'' True)"
    "roundRobinCounter ?lb = of_nat (3 * 0)"
    "3 * (0 + 3074457345618258602) \<le> (2::nat) ^ 63"
    by (simp_all add: NewLoadBalancer_def stubServer_def)
  have st: "?lb\<lparr>roundRobinCounter := of_nat (3 * (0 + 3074457345618258602))\<rparr> = ?lb1"
    by (simp add: NewLoadBalancer_def)
  have run: "selections (2 * 3074457345618258602) ?lb
      = Some (Inr (concat (replicate 3074457345618258602
                     [stubServer ''A'' True, stubServer ''C'' True])), ?lb1)"
    using one_dead_cycles [OF h] unfolding st .
  have g1: "getNextAvailableServer ?lb1 = Some (Inr (stubServer ''A'' True), ?lb2)"
    by (simp add: getNextAvailableServer_def serverAtCounter_def go_rem_def go_len_def
        go_index_def skipLoop.simps stubServer_def signed_modulo_int_def)
  have g2: "getNextAvailableServer ?lb2 = Some (Inl (IndexOutOfRange (- 2)), ?lb3)"
    by (simp add: getNextAvailableServer_def serverAtCounter_def go_rem_def go_len_def
        go_index_def skipLoop.simps stubServer_def signed_modulo_int_def)
  have two: "(2::nat) = Suc (Suc 0)" by simp
  have last: "selections 2 ?lb1 = Some (Inl (IndexOutOfRange (- 2)), ?lb3)"
    unfolding two selections.simps g1
    by (simp only: g2 option.case prod.case sum.case)
  show ?thesis
    unfolding selections_add [of "2 * 3074457345618258602" 2] run
    by (simp only: last option.case prod.case sum.case)
qed

text \<open>
  While the counter is far enough below \<open>2 ^ 63\<close>, a selection moves it up by at least one,
  and two load balancers over the same targets whose counters agree modulo the number of
  targets select the same target.
\<close>

lemma selection_advances_and_is_determined:
  assumes ne: "servers lb1 \<noteq> []" and len: "length (servers lb1) < 2 ^ 63"
    and alive: "\<exists>s\<in>set (servers lb1). IsAlive s"
    and same: "servers lb2 = servers lb1"
    and c1: "roundRobinCounter lb1 = of_nat c1" "c1 + length (servers lb1) < 2 ^ 63"
    and c2: "roundRobinCounter lb2 = of_nat c2" "c2 + length (servers lb1) < 2 ^ 63"
    and md: "c1 mod length (servers lb1) = c2 mod length (servers lb1)"
  shows "\<exists>s lb1' lb2'. getNextAvailableServer lb1 = Some (Inr s, lb1')
           \<and> getNextAvailableServer lb2 = Some (Inr s, lb2')
           \<and> sint (roundRobinCounter lb1) + 1 \<le> sint (roundRobinCounter lb1')
           \<and> sint (roundRobinCounter lb2) + 1 \<le> sint (roundRobinCounter lb2')"
proof -
  let ?n = "length (servers lb1)"
  let ?P = "\<lambda>c d. IsAlive (servers lb1 ! ((c + d) mod ?n))"
  have eq: "?P c1 d = ?P c2 d" for d
    using md by (metis mod_add_cong)
  have le1: "c1 + ?n \<le> 2 ^ 63" and le2: "c2 + length (servers lb2) \<le> 2 ^ 63"
    using c1(2) c2(2) same by simp_all
  from getNextAvailableServer_returns [OF ne len alive c1(1) le1]
  obtain d1 where d1: "d1 < ?n" "\<forall>i<d1. \<not> ?P c1 i" "?P c1 d1"
    and r1: "getNextAvailableServer lb1
      = Some (Inr (servers lb1 ! ((c1 + d1) mod ?n)), lb1\<lparr>roundRobinCounter := of_nat (Suc (c1 + d1))\<rparr>)"
    by blast
  from getNextAvailableServer_returns [of lb2 c2] ne len alive c2(1) le2 same
  obtain d2 where d2: "d2 < ?n" "\<forall>i<d2. \<not> ?P c2 i" "?P c2 d2"
    and r2: "getNextAvailableServer lb2
      = Some (Inr (servers lb1 ! ((c2 + d2) mod ?n)), lb2\<lparr>roundRobinCounter := of_nat (Suc (c2 + d2))\<rparr>)"
    by auto
  have "\<not> d1 < d2" using d1(3) d2(2) eq by blast
  moreover have "\<not> d2 < d1" using d2(3) d1(2) eq by blast
  ultimately have d: "d1 = d2" by simp
  have s: "servers lb1 ! ((c1 + d1) mod ?n) = servers lb1 ! ((c2 + d2) mod ?n)"
    using md d by (metis mod_add_cong)
  have b1: "Suc (c1 + d1) < 2 ^ 63" and b2: "Suc (c2 + d2) < 2 ^ 63"
    using d1(1) d2(1) c1(2) c2(2) by simp_all
  have "c1 < 2 ^ 63" "c2 < 2 ^ 63" using c1(2) c2(2) by simp_all
  then have v: "sint (roundRobinCounter lb1) = int c1" "sint (roundRobinCounter lb2) = int c2"
    using c1(1) c2(1) by (simp_all add: sint_of_nat_small)
  have v': "sint (of_nat (Suc (c1 + d1)) :: go_int) = int (Suc (c1 + d1))"
    "sint (of_nat (Suc (c2 + d2)) :: go_int) = int (Suc (c2 + d2))"
    using b1 b2 by (simp_all only: sint_of_nat_small)
  show ?thesis
    using r1 r2 s v v' by (intro exI conjI) (assumption | simp)+
qed

text \<open>
  C4. The code at the end of the counter's range. A load balancer over one target that is
  alive reaches the counter \<open>2 ^ 63 - 1\<close> from construction; the selection made there
  returns the target and leaves the counter at \<open>- (2 ^ 63)\<close>, below its value at the call.
  Over \<open>[A, B, C]\<close> with \<open>B\<close> not alive, the counters \<open>1\<close> and \<open>2 ^ 63 - 1\<close> have the same
  remainder by \<open>3\<close> and the liveness is the same, but the selection at \<open>1\<close> returns \<open>C\<close> while
  the selection at \<open>2 ^ 63 - 1\<close> wraps the counter and panics on the index \<open>- 2\<close>.
\<close>

theorem counter_overflow_breaks_advance:
  "(\<exists>xs. selections (2 ^ 63 - 1) (NewLoadBalancer ''8080'' [stubServer ''A'' True])
          = Some (Inr xs, \<lparr>port = ''8080'', roundRobinCounter = 2 ^ 63 - 1,
                           servers = [stubServer ''A'' True]\<rparr>))
   \<and> getNextAvailableServer
       \<lparr>port = ''8080'', roundRobinCounter = 2 ^ 63 - 1, servers = [stubServer ''A'' True]\<rparr>
     = Some (Inr (stubServer ''A'' True),
             \<lparr>port = ''8080'', roundRobinCounter = - (2 ^ 63), servers = [stubServer ''A'' True]\<rparr>)
   \<and> sint (- (2 ^ 63) :: go_int) < sint (2 ^ 63 - 1 :: go_int)
   \<and> go_rem 1 (go_len [stubServer ''A'' True, stubServer ''B'' False, stubServer ''C'' True])
     = go_rem (2 ^ 63 - 1)
         (go_len [stubServer ''A'' True, stubServer ''B'' False, stubServer ''C'' True])
   \<and> getNextAvailableServer
       \<lparr>port = ''8080'', roundRobinCounter = 1,
        servers = [stubServer ''A'' True, stubServer ''B'' False, stubServer ''C'' True]\<rparr>
     = Some (Inr (stubServer ''C'' True),
             \<lparr>port = ''8080'', roundRobinCounter = 3,
              servers = [stubServer ''A'' True, stubServer ''B'' False, stubServer ''C'' True]\<rparr>)
   \<and> getNextAvailableServer
       \<lparr>port = ''8080'', roundRobinCounter = 2 ^ 63 - 1,
        servers = [stubServer ''A'' True, stubServer ''B'' False, stubServer ''C'' True]\<rparr>
     = Some (Inl (IndexOutOfRange (- 2)),
             \<lparr>port = ''8080'', roundRobinCounter = - (2 ^ 63),
              servers = [stubServer ''A'' True, stubServer ''B'' False, stubServer ''C'' True]\<rparr>)"
proof -
  let ?lb = "NewLoadBalancer ''8080'' [stubServer ''A'' True]"
  have h: "servers ?lb \<noteq> []" "length (servers ?lb) < 2 ^ 63"
    "\<forall>s\<in>set (servers ?lb). IsAlive s" "roundRobinCounter ?lb = of_nat 0"
    "0 + (2 ^ 63 - 1) \<le> (2::nat) ^ 63"
    by (simp_all add: NewLoadBalancer_def stubServer_def)
  have st: "?lb\<lparr>roundRobinCounter := of_nat (0 + (2 ^ 63 - 1))\<rparr>
      = \<lparr>port = ''8080'', roundRobinCounter = 2 ^ 63 - 1, servers = [stubServer ''A'' True]\<rparr>"
    by (simp add: NewLoadBalancer_def)
  have reach: "\<exists>xs. selections (2 ^ 63 - 1) ?lb
          = Some (Inr xs, \<lparr>port = ''8080'', roundRobinCounter = 2 ^ 63 - 1,
                           servers = [stubServer ''A'' True]\<rparr>)"
    using selections_all_alive [OF h] unfolding st by blast
  have rest: "getNextAvailableServer
       \<lparr>port = ''8080'', roundRobinCounter = 2 ^ 63 - 1, servers = [stubServer ''A'' True]\<rparr>
     = Some (Inr (stubServer ''A'' True),
             \<lparr>port = ''8080'', roundRobinCounter = - (2 ^ 63), servers = [stubServer ''A'' True]\<rparr>)"
    "sint (- (2 ^ 63) :: go_int) < sint (2 ^ 63 - 1 :: go_int)"
    "go_rem 1 (go_len [stubServer ''A'' True, stubServer ''B'' False, stubServer ''C'' True])
     = go_rem (2 ^ 63 - 1)
         (go_len [stubServer ''A'' True, stubServer ''B'' False, stubServer ''C'' True])"
    "getNextAvailableServer
       \<lparr>port = ''8080'', roundRobinCounter = 1,
        servers = [stubServer ''A'' True, stubServer ''B'' False, stubServer ''C'' True]\<rparr>
     = Some (Inr (stubServer ''C'' True),
             \<lparr>port = ''8080'', roundRobinCounter = 3,
              servers = [stubServer ''A'' True, stubServer ''B'' False, stubServer ''C'' True]\<rparr>)"
    "getNextAvailableServer
       \<lparr>port = ''8080'', roundRobinCounter = 2 ^ 63 - 1,
        servers = [stubServer ''A'' True, stubServer ''B'' False, stubServer ''C'' True]\<rparr>
     = Some (Inl (IndexOutOfRange (- 2)),
             \<lparr>port = ''8080'', roundRobinCounter = - (2 ^ 63),
              servers = [stubServer ''A'' True, stubServer ''B'' False, stubServer ''C'' True]\<rparr>)"
    by (simp_all add: getNextAvailableServer_def serverAtCounter_def go_rem_def go_len_def
        go_index_def skipLoop.simps stubServer_def signed_modulo_int_def)
  show ?thesis using reach rest by (intro conjI)
qed

text \<open>
  C5. The code at the end of the counter's range. A load balancer constructed over three
  targets that are alive serves \<open>2 ^ 63\<close> selections; they leave the counter, incremented
  once per selection, at \<open>- (2 ^ 63)\<close>. The next selection computes the remainder \<open>- 2\<close> of
  the counter by \<open>3\<close> and panics indexing the list of servers with it.
\<close>

theorem counter_overflow_index_out_of_range:
  "selections (2 ^ 63 + 1)
     (NewLoadBalancer ''8080''
        [stubServer ''A'' True, stubServer ''B'' True, stubServer ''C'' True])
   = Some (Inl (IndexOutOfRange (- 2)),
           \<lparr>port = ''8080'', roundRobinCounter = - (2 ^ 63),
            servers = [stubServer ''A'' True, stubServer ''B'' True, stubServer ''C'' True]\<rparr>)"
proof -
  let ?srvs = "[stubServer ''A'' True, stubServer ''B'' True, stubServer ''C'' True]"
  let ?lb = "NewLoadBalancer ''8080'' ?srvs"
  let ?lb' = "\<lparr>port = ''8080'', roundRobinCounter = - (2 ^ 63), servers = ?srvs\<rparr>"
  have h: "servers ?lb \<noteq> []" "length (servers ?lb) < 2 ^ 63"
    "\<forall>s\<in>set (servers ?lb). IsAlive s" "roundRobinCounter ?lb = of_nat 0"
    "0 + 2 ^ 63 \<le> (2::nat) ^ 63"
    by (simp_all add: NewLoadBalancer_def stubServer_def)
  have st: "?lb\<lparr>roundRobinCounter := of_nat (0 + 2 ^ 63)\<rparr> = ?lb'"
    by (simp add: NewLoadBalancer_def)
  have run: "selections (2 ^ 63) ?lb
      = Some (Inr (map (\<lambda>i. servers ?lb ! (i mod length (servers ?lb))) [0..<0 + 2 ^ 63]), ?lb')"
    using selections_all_alive [OF h] unfolding st .
  have last: "getNextAvailableServer ?lb' = Some (Inl (IndexOutOfRange (- 2)), ?lb')"
    by (simp add: getNextAvailableServer_def serverAtCounter_def go_rem_def go_len_def
        go_index_def signed_modulo_int_def)
  have one: "selections 1 ?lb' = Some (Inl (IndexOutOfRange (- 2)), ?lb')"
    unfolding One_nat_def selections.simps last by simp
  show ?thesis
    unfolding selections_add [of "2 ^ 63" 1] run by (simp only: one option.case prod.case sum.case)
qed

section \<open>The empty target list\<close>

text \<open>
  C10. \<^verbatim>\<open>NewLoadBalancer\<close> takes an empty slice of servers without any check and returns
  a load balancer holding it; on that load balancer the first call of
  \<^verbatim>\<open>getNextAvailableServer\<close> panics with an integer division by zero while computing
  \<^verbatim>\<open>roundRobinCounter % len(servers)\<close>, before any element is read, and so does the
  first call of \<^verbatim>\<open>serveProxy\<close>.
\<close>

theorem empty_servers_divide_by_zero:
  "NewLoadBalancer p [] = \<lparr>port = p, roundRobinCounter = 0, servers = []\<rparr>
   \<and> go_rem (roundRobinCounter (NewLoadBalancer p [])) (go_len (servers (NewLoadBalancer p [])))
       = Inl DivideByZero
   \<and> getNextAvailableServer (NewLoadBalancer p []) = Some (Inl DivideByZero, NewLoadBalancer p [])
   \<and> serveProxy (NewLoadBalancer p []) req = Some (Inl DivideByZero, NewLoadBalancer p [])"
  by (simp add: NewLoadBalancer_def getNextAvailableServer_def serveProxy_def
      serverAtCounter_def go_rem_def go_len_def)

end
